theory Spec2Isabelle
  imports Complex_Main "HOL-Library.Word"
begin

unbundle bit_operations_syntax

section \<open>Trace entries and the entry store\<close>

text \<open>
  The plugin works on \<^verbatim>\<open>kshark_entry\<close> objects that it reaches through pointers
  (\<^verbatim>\<open>cSS->data[i]->entry\<close>, \<^verbatim>\<open>e->next\<close>). An address is a natural number, the null
  pointer is \<open>None\<close>, and the store maps every address to the entry that lives there.
  Several container elements may reach the same entry, so the store is threaded
  explicitly through every function that writes \<^verbatim>\<open>e->pid\<close> or \<^verbatim>\<open>e->visible\<close>.
\<close>

type_synonym addr = nat

text \<open>
  Modelled from the spec: \<^verbatim>\<open>struct kshark_entry\<close> is declared in \<^verbatim>\<open>libkshark.h\<close>, which is
  not among the sources. A trace entry has an "owning task id (\<open>pid\<close>), event-kind id,
  a visibility bitmask", a timestamp and "a singly-forward link to the chronologically
  next entry (\<open>next\<close>; may be null at stream end)". These are also the fields that
  \<^verbatim>\<open>SchedEvents.cpp\<close> reads or writes. The task id and the event id are only compared,
  never computed with, so they are integers; the visibility mask is a 16-bit word
  because the code clears a bit of it.
\<close>

record kshark_entry =
  next_entry :: "addr option"
  visible :: "16 word"
  event_id :: int
  pid :: int
  ts :: int

type_synonym store = "addr \<Rightarrow> kshark_entry"

text \<open>
  Modelled from the spec: \<^verbatim>\<open>struct kshark_data_field_int64\<close> and
  \<^verbatim>\<open>struct kshark_data_container\<close> of \<^verbatim>\<open>libkshark.h\<close>. A field container is "an ordered
  sequence of (entry reference, extracted field value) pairs"; the code reads it as
  \<^verbatim>\<open>data[0 .. size-1]\<close>, each element with its \<^verbatim>\<open>entry\<close> and its \<^verbatim>\<open>field\<close>.
\<close>

record kshark_data_field_int64 =
  entry :: addr
  field :: int

type_synonym kshark_data_container = "kshark_data_field_int64 list"

text \<open>
  Modelled from the spec: \<^verbatim>\<open>struct plugin_sched_context\<close> of \<^verbatim>\<open>plugins/sched_events.h\<close>,
  with the three members the file uses: the container of the switch events, the
  container of the wake-up events and the flag "second pass completed".
\<close>

record plugin_sched_context =
  ss_data :: kshark_data_container
  sw_data :: kshark_data_container
  second_pass_done :: bool

section \<open>The second pass\<close>

text \<open>
  The guard of the outer loop of \<^verbatim>\<open>secondPass\<close> (the condition of its \<^verbatim>\<open>continue\<close>).
  \<open>get_pid\<close> stands for \<^verbatim>\<open>plugin_sched_get_pid\<close>, which is defined in the C part of the
  plugin; it is a parameter throughout.
\<close>

definition skips :: "(int \<Rightarrow> int) \<Rightarrow> store \<Rightarrow> kshark_data_field_int64 \<Rightarrow> bool" where
  "skips get_pid s d =
     (case next_entry (s (entry d)) of
        None \<Rightarrow> True
      | Some n \<Rightarrow>
          pid (s (entry d)) = 0 \<or>
          event_id (s (entry d)) = event_id (s n) \<or>
          get_pid (field d) \<noteq> pid (s n))"

text \<open>
  The inner loop \<^verbatim>\<open>for (; e->next; e = e->next)\<close>. It returns \<open>Some (Some e)\<close> when it
  breaks at \<open>e\<close> (the successor of \<open>e\<close> has another task id than \<open>pid_rec\<close>),
  \<open>Some None\<close> when it runs off the end of the chain, and \<open>None\<close> when it never
  returns (a cyclic chain of entries that all carry \<open>pid_rec\<close>).
  The loop writes nothing before it breaks, so the store is read only.
\<close>

partial_function (option) last_trailing :: "store \<Rightarrow> int \<Rightarrow> addr \<Rightarrow> addr option option" where
  "last_trailing s pid_rec e =
     (case next_entry (s e) of
        None \<Rightarrow> Some None
      | Some n \<Rightarrow>
          if pid (s n) \<noteq> pid_rec then Some (Some e)
          else last_trailing s pid_rec n)"

text \<open>
  The two assignments made at the break:
  \<^verbatim>\<open>e->pid = cSS->data[i]->entry->pid; e->visible &= ~KS_PLUGIN_UNTOUCHED_MASK;\<close>.
  \<open>untouched\<close> stands for the constant \<^verbatim>\<open>KS_PLUGIN_UNTOUCHED_MASK\<close> of \<^verbatim>\<open>libkshark.h\<close>.
\<close>

definition mark_edited :: "16 word \<Rightarrow> addr \<Rightarrow> addr \<Rightarrow> store \<Rightarrow> store" where
  "mark_edited untouched sw e s =
     s(e := (s e)\<lparr>pid := pid (s sw), visible := visible (s e) AND NOT untouched\<rparr>)"

text \<open>One iteration of the outer loop, for the container element \<open>d\<close>.\<close>

definition secondPass_elem ::
    "(int \<Rightarrow> int) \<Rightarrow> 16 word \<Rightarrow> kshark_data_field_int64 \<Rightarrow> store \<Rightarrow> store option" where
  "secondPass_elem get_pid untouched d s =
     (if skips get_pid s d then Some s
      else
        (case last_trailing s (get_pid (field d)) (entry d) of
           None \<Rightarrow> None
         | Some None \<Rightarrow> Some s
         | Some (Some e) \<Rightarrow> Some (mark_edited untouched (entry d) e s)))"

text \<open>The outer loop \<^verbatim>\<open>for (i = 0; i < cSS->size; ++i)\<close> over the elements in order.\<close>

fun secondPass_loop ::
    "(int \<Rightarrow> int) \<Rightarrow> 16 word \<Rightarrow> kshark_data_container \<Rightarrow> store \<Rightarrow> store option" where
  "secondPass_loop get_pid untouched [] s = Some s"
| "secondPass_loop get_pid untouched (d # ds) s =
     (case secondPass_elem get_pid untouched d s of
        None \<Rightarrow> None
      | Some s' \<Rightarrow> secondPass_loop get_pid untouched ds s')"

text \<open>
  \<^verbatim>\<open>secondPass(plugin_ctx)\<close>: the context is passed by pointer, so the model hands it
  back together with the store.
\<close>

definition secondPass ::
    "(int \<Rightarrow> int) \<Rightarrow> 16 word \<Rightarrow> plugin_sched_context \<times> store \<Rightarrow>
     (plugin_sched_context \<times> store) option" where
  "secondPass get_pid untouched st =
     (case secondPass_loop get_pid untouched (ss_data (fst st)) (snd st) of
        None \<Rightarrow> None
      | Some s' \<Rightarrow> Some (fst st, s'))"

text \<open>
  The values the loop variable \<open>e\<close> takes, in order: the same loop as
  \<open>last_trailing\<close>, collecting the entries instead of answering with the last one.
\<close>

partial_function (option) visited :: "store \<Rightarrow> int \<Rightarrow> addr \<Rightarrow> addr list option" where
  "visited s pid_rec e =
     (case next_entry (s e) of
        None \<Rightarrow> Some [e]
      | Some n \<Rightarrow>
          if pid (s n) \<noteq> pid_rec then Some [e]
          else Option.bind (visited s pid_rec n) (\<lambda>vs. Some (e # vs)))"

text \<open>
  \<open>chain s e xs\<close>: following \<open>next\<close> from \<open>e\<close> passes the entries \<open>xs\<close>, in this
  order, and then reaches the null pointer. A chain that has such a list is finite,
  and it cannot run into a cycle.
\<close>

fun chain :: "store \<Rightarrow> addr \<Rightarrow> addr list \<Rightarrow> bool" where
  "chain s e [] = (next_entry (s e) = None)"
| "chain s e (x # xs) = (next_entry (s e) = Some x \<and> chain s x xs)"

text \<open>The successor relation of a store: \<open>(a, b)\<close> when \<^verbatim>\<open>a->next\<close> is \<open>b\<close>.\<close>

definition next_rel :: "store \<Rightarrow> (addr \<times> addr) set" where
  "next_rel s = {(a, b). next_entry (s a) = Some b}"

text \<open>
  The block of \<^verbatim>\<open>plugin_draw\<close> that runs the second pass:
  \<^verbatim>\<open>if (!plugin_ctx->second_pass_done) { secondPass(plugin_ctx); plugin_ctx->second_pass_done = true; }\<close>
\<close>

definition second_pass_once ::
    "(int \<Rightarrow> int) \<Rightarrow> 16 word \<Rightarrow> plugin_sched_context \<times> store \<Rightarrow>
     (plugin_sched_context \<times> store) option" where
  "second_pass_once get_pid untouched st =
     (if \<not> second_pass_done (fst st) then
        (case secondPass get_pid untouched st of
           None \<Rightarrow> None
         | Some st' \<Rightarrow> Some ((fst st')\<lparr>second_pass_done := True\<rparr>, snd st'))
      else Some st)"

section \<open>Shapes\<close>

text \<open>
  Modelled from the spec: the classes \<^verbatim>\<open>Point\<close>, \<^verbatim>\<open>Color\<close>, \<^verbatim>\<open>Rectangle\<close> and \<^verbatim>\<open>Graph\<close> of
  \<^verbatim>\<open>KsPlotTools.hpp\<close> are not part of the plugin's file. A rectangle shape is "four 2-D
  points, fill flag, stroke size, color"; \<^verbatim>\<open>LatencyBox\<close> adds the vector \<^verbatim>\<open>_data\<close>. Of a
  graph the plugin asks the base point of a bin (\<^verbatim>\<open>bin(i)._base\<close>) and the row height
  (\<^verbatim>\<open>height()\<close>). Coordinates are C \<^verbatim>\<open>int\<close>s: integers from \<open>- 2 ^ 31\<close> up to
  \<open>2 ^ 31 - 1\<close>, which is what \<open>in_int\<close> says. \<open>distance\<close> only compares them;
  \<open>makeShape\<close> subtracts, and there the 32-bit arithmetic is written out.
\<close>

type_synonym point = "int \<times> int"

record Color =
  red :: "8 word"
  green :: "8 word"
  blue :: "8 word"

record Graph =
  bin_base :: "int \<Rightarrow> point"
  graph_height :: int

record LatencyBox =
  shape_points :: "point list"
  shape_fill :: bool
  shape_size :: real
  shape_color :: Color
  shape_data :: "kshark_data_field_int64 list"

text \<open>
  Modelled from the spec: a freshly constructed \<^verbatim>\<open>LatencyBox\<close> (the constructors are in
  \<^verbatim>\<open>KsPlotTools\<close>): four points, and defaults that \<^verbatim>\<open>makeShape\<close> overwrites one by one.
\<close>

definition new_LatencyBox :: LatencyBox where
  "new_LatencyBox =
     \<lparr>shape_points = replicate 4 (0, 0), shape_fill = True, shape_size = 1,
      shape_color = \<lparr>red = 0, green = 0, blue = 0\<rparr>, shape_data = []\<rparr>"

text \<open>
  Modelled from the spec: the accessors \<^verbatim>\<open>pointX(n)\<close>, \<^verbatim>\<open>pointY(n)\<close> and the setter
  \<^verbatim>\<open>setPoint(n, x, y)\<close> of the polygon. An index past the last point reads 0 and
  writes nothing.
\<close>

definition pointX :: "LatencyBox \<Rightarrow> nat \<Rightarrow> int" where
  "pointX r n = (if n < length (shape_points r) then fst (shape_points r ! n) else 0)"

definition pointY :: "LatencyBox \<Rightarrow> nat \<Rightarrow> int" where
  "pointY r n = (if n < length (shape_points r) then snd (shape_points r ! n) else 0)"

definition setPoint :: "nat \<Rightarrow> int \<Rightarrow> int \<Rightarrow> LatencyBox \<Rightarrow> LatencyBox" where
  "setPoint n x y r = r\<lparr>shape_points := (shape_points r)[n := (x, y)]\<rparr>"

text \<open>\<^verbatim>\<open>std::numeric_limits<double>::max()\<close>, the largest finite binary64 number.\<close>

definition DBL_MAX :: real where
  "DBL_MAX = (2 ^ 53 - 1) * 2 ^ 971"

text \<open>
  \<^verbatim>\<open>LatencyBox::distance\<close>. The comparisons are between \<^verbatim>\<open>int\<close>s; the result is one of
  two \<^verbatim>\<open>double\<close> constants, both of which are real numbers.
\<close>

definition distance :: "LatencyBox \<Rightarrow> int \<Rightarrow> int \<Rightarrow> real" where
  "distance r x y =
     (if x < pointX r 0 \<or> x > pointX r 2 then DBL_MAX
      else if y < pointY r 0 \<or> y > pointY r 1 then DBL_MAX
      else 0)"

text \<open>
  \<^verbatim>\<open>int height = graph[0]->height() * .3;\<close> The \<^verbatim>\<open>int\<close> is converted to \<^verbatim>\<open>double\<close> (exactly,
  it has at most 31 bits), multiplied by the binary64 number nearest to 0.3, which is
  \<open>5404319552844595 / 2 ^ 54\<close>, the product is rounded to 53 significant bits (to
  nearest, ties to even), and the conversion back to \<^verbatim>\<open>int\<close> drops the fraction.
  \<open>round_to_53\<close> rounds a natural number \<open>n\<close>, standing for \<open>n / 2 ^ 54\<close>.
\<close>

fun bit_length :: "nat \<Rightarrow> nat" where
  "bit_length n = (if n = 0 then 0 else Suc (bit_length (n div 2)))"

declare bit_length.simps [simp del]

definition round_to_53 :: "nat \<Rightarrow> nat" where
  "round_to_53 n =
     (let sh = bit_length n - 53;
          q = n div 2 ^ sh;
          r = n mod 2 ^ sh
      in if 2 * r > 2 ^ sh \<or> (2 * r = 2 ^ sh \<and> odd q) then (q + 1) * 2 ^ sh
         else q * 2 ^ sh)"

definition times_dot3 :: "int \<Rightarrow> int" where
  "times_dot3 h = sgn h * int (round_to_53 (nat \<bar>h\<bar> * 5404319552844595) div 2 ^ 54)"

text \<open>
  The subtractions \<^verbatim>\<open>p0.x() - 1\<close>, \<^verbatim>\<open>p0.y() - height\<close>, ... of \<^verbatim>\<open>makeShape\<close> are made in
  \<^verbatim>\<open>int\<close>. A difference that leaves the range of \<^verbatim>\<open>int\<close> is an overflow; the compiled
  code wraps around (base x = \<open>- 2 ^ 31\<close> gives the corner x = \<open>2 ^ 31 - 1\<close>), and
  so does \<open>sub_int\<close>.
\<close>

definition in_int :: "int \<Rightarrow> bool" where
  "in_int x = (- (2 ^ 31) \<le> x \<and> x < 2 ^ 31)"

definition wrap_int :: "int \<Rightarrow> int" where
  "wrap_int x = (x + 2 ^ 31) mod 2 ^ 32 - 2 ^ 31"

definition sub_int :: "int \<Rightarrow> int \<Rightarrow> int" where
  "sub_int a b = wrap_int (a - b)"

text \<open>
  \<^verbatim>\<open>makeShape\<close>. Reading \<^verbatim>\<open>graph[0]\<close>, \<^verbatim>\<open>bins[0]\<close> or \<^verbatim>\<open>bins[1]\<close> of a vector that is too
  short is undefined behaviour in C++; the model returns \<open>None\<close> there.
\<close>

definition makeShape ::
    "Graph list \<Rightarrow> int list \<Rightarrow> kshark_data_field_int64 list \<Rightarrow> Color \<Rightarrow> real \<Rightarrow>
     LatencyBox option" where
  "makeShape graph bins data col sz =
     (if graph = [] \<or> length bins < 2 then None
      else
        let rec0 = new_LatencyBox\<lparr>shape_data := data\<rparr>;
            p0 = bin_base (graph ! 0) (bins ! 0);
            p1 = bin_base (graph ! 0) (bins ! 1);
            height = times_dot3 (graph_height (graph ! 0));
            rec1 = rec0\<lparr>shape_fill := False\<rparr>;
            rec2 = setPoint 0 (sub_int (fst p0) 1) (sub_int (snd p0) height) rec1;
            rec3 = setPoint 1 (sub_int (fst p0) 1) (sub_int (snd p0) 1) rec2;
            rec4 = setPoint 3 (sub_int (fst p1) 1) (sub_int (snd p1) height) rec3;
            rec5 = setPoint 2 (sub_int (fst p1) 1) (sub_int (snd p1) 1) rec4
        in Some (rec5\<lparr>shape_size := sz, shape_color := col\<rparr>))"

section \<open>The draw function\<close>

text \<open>
  What the plugin takes from the rest of KernelShark, as parameters: the two accessors
  of the field value, the two bit masks, and \<^verbatim>\<open>eventFieldIntervalPlot\<close>, which reads the
  entries and both containers and answers with the shapes it appends to the argument
  vector. \<open>'argv\<close> is the type of \<^verbatim>\<open>kshark_cpp_argv\<close>.
\<close>

type_synonym IsApplicableFunc = "store \<Rightarrow> kshark_data_container \<Rightarrow> int \<Rightarrow> bool"

type_synonym pluginShapeFunc =
  "Graph list \<Rightarrow> int list \<Rightarrow> kshark_data_field_int64 list \<Rightarrow> Color \<Rightarrow> real \<Rightarrow>
   LatencyBox option"

record 'argv host =
  plugin_sched_get_pid :: "int \<Rightarrow> int"
  plugin_sched_get_prev_state :: "int \<Rightarrow> 32 word"
  KS_PLUGIN_UNTOUCHED_MASK :: "16 word"
  KSHARK_TASK_DRAW :: "32 word"
  eventFieldIntervalPlot ::
    "'argv \<Rightarrow> store \<Rightarrow> kshark_data_container \<Rightarrow> IsApplicableFunc \<Rightarrow>
     kshark_data_container \<Rightarrow> IsApplicableFunc \<Rightarrow> pluginShapeFunc \<Rightarrow> Color \<Rightarrow> real \<Rightarrow>
     LatencyBox list"

text \<open>
  Modelled from the spec: \<^verbatim>\<open>__get_context(sd)\<close> is generated in the C part of the plugin.
  The plugin context is "keyed by stream identifier"; a stream without a context gives
  the null pointer. The state of the plugin is the table of contexts and the entries.
\<close>

record sched_state =
  contexts :: "int \<Rightarrow> plugin_sched_context option"
  entries :: store

text \<open>The three lambdas of \<^verbatim>\<open>plugin_draw\<close>, each closed over the task id.\<close>

definition checkFieldSW :: "int \<Rightarrow> IsApplicableFunc" where
  "checkFieldSW task s d i = (field (d ! nat i) = task)"

definition checkFieldSS :: "'argv host \<Rightarrow> int \<Rightarrow> IsApplicableFunc" where
  "checkFieldSS h task s d i =
     (plugin_sched_get_prev_state h (field (d ! nat i)) AND 0x7f = 0 \<and>
      plugin_sched_get_pid h (field (d ! nat i)) = task)"

definition checkEntryPid :: "int \<Rightarrow> IsApplicableFunc" where
  "checkEntryPid task s d i = (pid (s (entry (d ! nat i))) = task)"

text \<open>
  \<^verbatim>\<open>plugin_draw\<close>. The result is the list of shapes added in this call and the new
  state; \<open>None\<close> stands for a call that does not return.
\<close>

definition plugin_draw ::
    "'argv host \<Rightarrow> 'argv \<Rightarrow> int \<Rightarrow> int \<Rightarrow> 32 word \<Rightarrow> sched_state \<Rightarrow>
     (LatencyBox list \<times> sched_state) option" where
  "plugin_draw h argv_c sd task draw_action st =
     (if draw_action AND KSHARK_TASK_DRAW h = 0 \<or> task = 0 then Some ([], st)
      else
        (case contexts st sd of
           None \<Rightarrow> Some ([], st)
         | Some plugin_ctx \<Rightarrow>
             (case second_pass_once (plugin_sched_get_pid h) (KS_PLUGIN_UNTOUCHED_MASK h)
                     (plugin_ctx, entries st) of
                None \<Rightarrow> None
              | Some (ctx', s') \<Rightarrow>
                  Some
                    (eventFieldIntervalPlot h argv_c s'
                       (sw_data ctx') (checkFieldSW task)
                       (ss_data ctx') (checkEntryPid task)
                       makeShape \<lparr>red = 0, green = 255, blue = 0\<rparr> (- 1) @
                     eventFieldIntervalPlot h argv_c s'
                       (ss_data ctx') (checkFieldSS h task)
                       (ss_data ctx') (checkEntryPid task)
                       makeShape \<lparr>red = 255, green = 0, blue = 0\<rparr> (- 1),
                     st\<lparr>contexts := (contexts st)(sd \<mapsto> ctx'), entries := s'\<rparr>))))"

text \<open>
  A run of draw calls for the stream \<open>sd\<close>; each call gives its argument vector, task
  id and draw action. The result lists the state after each call.
\<close>

fun draw_run ::
    "'argv host \<Rightarrow> int \<Rightarrow> ('argv \<times> int \<times> 32 word) list \<Rightarrow> sched_state \<Rightarrow>
     sched_state list option" where
  "draw_run h sd [] st = Some []"
| "draw_run h sd (c # cs) st =
     (case plugin_draw h (fst c) sd (fst (snd c)) (snd (snd c)) st of
        None \<Rightarrow> None
      | Some r \<Rightarrow>
          (case draw_run h sd cs (snd r) of
             None \<Rightarrow> None
           | Some sts \<Rightarrow> Some (snd r # sts)))"

text \<open>The flag of the stream \<open>sd\<close>; a stream without a context has none set.\<close>

definition pass_done :: "sched_state \<Rightarrow> int \<Rightarrow> bool" where
  "pass_done st sd = (case contexts st sd of None \<Rightarrow> False | Some c \<Rightarrow> second_pass_done c)"

section \<open>The skip condition in the words of the specification\<close>

text \<open>
  The specification lists four reasons to skip a container element. This predicate
  follows its words: the fourth reason is that the recorded id "does not differ from
  the successor's task id".
\<close>

definition spec_skip :: "(int \<Rightarrow> int) \<Rightarrow> store \<Rightarrow> kshark_data_field_int64 \<Rightarrow> bool" where
  "spec_skip get_pid s d =
     (case next_entry (s (entry d)) of
        None \<Rightarrow> True
      | Some n \<Rightarrow>
          pid (s (entry d)) = 0 \<or>
          event_id (s (entry d)) = event_id (s n) \<or>
          \<not> get_pid (field d) \<noteq> pid (s n))"

section \<open>A stream with two trailing events\<close>

text \<open>
  Six linked entries at the addresses 1 to 6. Entry 3 is the switch event: it was
  recorded for task 7 and the first pass has set its task id to the next task, 9.
  Entries 4 and 5 are trailing events of task 7, entry 6 belongs to task 9. All
  visibility bits are set. The field value of the switch event is the recorded id
  itself: \<open>field_pid\<close> takes the place of \<open>get_pid\<close>. \<open>once5\<close> and \<open>twice5\<close> are
  the stream after entry 5, and then also entry 4, has been edited with bit 7 as the
  untouched bit.
\<close>

definition field_pid :: "int \<Rightarrow> int" where
  "field_pid f = f"

definition trace_entry :: "addr option \<Rightarrow> int \<Rightarrow> int \<Rightarrow> int \<Rightarrow> kshark_entry" where
  "trace_entry n ev task t = \<lparr>next_entry = n, visible = 0xFF, event_id = ev, pid = task, ts = t\<rparr>"

definition stream5 :: store where
  "stream5 =
     (\<lambda>_. trace_entry None 0 0 0)
       (1 := trace_entry (Some 2) 2 3 10,
        2 := trace_entry (Some 3) 2 3 20,
        3 := trace_entry (Some 4) 1 9 30,
        4 := trace_entry (Some 5) 2 7 40,
        5 := trace_entry (Some 6) 2 7 50,
        6 := trace_entry None 2 9 60)"

definition once5 :: store where
  "once5 = stream5(5 := (stream5 5)\<lparr>pid := 9, visible := 0x7F\<rparr>)"

definition twice5 :: store where
  "twice5 = once5(4 := (once5 4)\<lparr>pid := 9, visible := 0x7F\<rparr>)"

definition switch3 :: kshark_data_field_int64 where
  "switch3 = \<lparr>entry = 3, field = 7\<rparr>"

definition ctx5 :: plugin_sched_context where
  "ctx5 = \<lparr>ss_data = [switch3], sw_data = [], second_pass_done = False\<rparr>"

text \<open>
  A host for the examples: the field value is the recorded task id, the untouched bit
  is bit 7, task drawing is bit 1 of the draw action, and the interval plot asks the
  shape function for one shape between bins 0 and 1 of the graph it is given.
\<close>

definition example_host :: "Graph host" where
  "example_host =
     \<lparr>plugin_sched_get_pid = field_pid,
      plugin_sched_get_prev_state = (\<lambda>f. 0),
      KS_PLUGIN_UNTOUCHED_MASK = 0x80,
      KSHARK_TASK_DRAW = 2,
      eventFieldIntervalPlot =
        (\<lambda>g s dA pA dB pB mk col sz.
           case mk [g] [0, 1] [] col sz of None \<Rightarrow> [] | Some r \<Rightarrow> [r])\<rparr>"

text \<open>
  A graph whose bins are 10 pixels apart on the base line \<open>y = 100\<close>, 10 pixels high,
  and the green box that \<open>makeShape\<close> builds between its bins 2 and 9; and a graph
  whose bins all have the smallest \<^verbatim>\<open>int\<close> as their base x.
\<close>

definition example_graph :: Graph where
  "example_graph = \<lparr>bin_base = (\<lambda>b. (10 * b, 100)), graph_height = 10\<rparr>"

definition edge_graph :: Graph where
  "edge_graph = \<lparr>bin_base = (\<lambda>b. (- 2147483648, 100)), graph_height = 10\<rparr>"

definition example_box :: LatencyBox where
  "example_box =
     \<lparr>shape_points = [(19, 97), (19, 99), (89, 99), (89, 97)],
      shape_fill = False, shape_size = - 1,
      shape_color = \<lparr>red = 0, green = 255, blue = 0\<rparr>, shape_data = []\<rparr>"

text \<open>
  The plugin state with the example stream as stream 0, before and after its second
  pass.
\<close>

definition state5 :: sched_state where
  "state5 = \<lparr>contexts = [0 \<mapsto> ctx5], entries = stream5\<rparr>"

definition done5 :: sched_state where
  "done5 = \<lparr>contexts = [0 \<mapsto> ctx5\<lparr>second_pass_done := True\<rparr>], entries = once5\<rparr>"

section \<open>Facts about the example stream\<close>

lemma field_pid_apply [simp]: "field_pid f = f"
  by (simp add: field_pid_def)

lemma stream5_at:
  "stream5 1 = trace_entry (Some 2) 2 3 10"
  "stream5 2 = trace_entry (Some 3) 2 3 20"
  "stream5 3 = trace_entry (Some 4) 1 9 30"
  "stream5 4 = trace_entry (Some 5) 2 7 40"
  "stream5 5 = trace_entry (Some 6) 2 7 50"
  "stream5 6 = trace_entry None 2 9 60"
  by (simp_all add: stream5_def)

lemma stream5_not_skipped: "\<not> skips field_pid stream5 switch3"
  by (simp add: skips_def switch3_def stream5_at trace_entry_def field_pid_def)

lemma stream5_walk: "last_trailing stream5 7 3 = Some (Some 5)"
  by (simp add: last_trailing.simps stream5_at trace_entry_def)

lemma stream5_elem:
  "secondPass_elem field_pid untouched switch3 stream5 = Some (mark_edited untouched 3 5 stream5)"
  using stream5_not_skipped
  by (simp add: secondPass_elem_def switch3_def stream5_walk field_pid_def)

lemma stream5_pass:
  "secondPass field_pid untouched (ctx5, stream5) = Some (ctx5, mark_edited untouched 3 5 stream5)"
  by (simp add: secondPass_def ctx5_def stream5_elem)

lemma stream5_once:
  "second_pass_once field_pid 0x80 (ctx5, stream5) =
     Some (ctx5\<lparr>second_pass_done := True\<rparr>, mark_edited 0x80 3 5 stream5)"
  by (simp add: second_pass_once_def stream5_pass) (simp add: ctx5_def)

lemma once5_eq: "mark_edited 0x80 3 5 stream5 = once5"
  by (simp add: mark_edited_def once5_def stream5_at trace_entry_def)

lemma once5_at:
  "once5 3 = trace_entry (Some 4) 1 9 30"
  "once5 4 = trace_entry (Some 5) 2 7 40"
  "once5 5 = (trace_entry (Some 6) 2 7 50)\<lparr>pid := 9, visible := 0x7F\<rparr>"
  by (simp_all add: once5_def stream5_at)

lemma stream5_elem_once: "secondPass_elem field_pid 0x80 switch3 stream5 = Some once5"
  by (simp add: stream5_elem once5_eq)

lemma stream5_pass_once: "secondPass field_pid 0x80 (ctx5, stream5) = Some (ctx5, once5)"
  by (simp add: stream5_pass once5_eq)

lemma once5_elem: "secondPass_elem field_pid 0x80 switch3 once5 = Some twice5"
  by (simp add: secondPass_elem_def skips_def switch3_def field_pid_def once5_at trace_entry_def
      last_trailing.simps mark_edited_def twice5_def)

lemma once5_pass: "secondPass field_pid 0x80 (ctx5, once5) = Some (ctx5, twice5)"
  by (simp add: secondPass_def ctx5_def once5_elem)

lemma and_not_and_mask: "(v AND NOT m) AND m = (0::16 word)"
  by (simp add: and.assoc)

section \<open>Finite chains\<close>

lemma chain_unique: "chain s e xs \<Longrightarrow> chain s e ys \<Longrightarrow> xs = ys"
proof (induction xs arbitrary: e ys)
  case Nil
  then show ?case by (cases ys) auto
next
  case (Cons x xs)
  then show ?case by (cases ys) auto
qed

lemma chain_from_member:
  "chain s e xs \<Longrightarrow> x \<in> set xs \<Longrightarrow> \<exists>ys. chain s x ys \<and> length ys < length xs"
proof (induction xs arbitrary: e)
  case Nil
  then show ?case by simp
next
  case (Cons y ys)
  show ?case
  proof (cases "x = y")
    case True
    with Cons.prems show ?thesis by auto
  next
    case False
    with Cons.prems have "x \<in> set ys" "chain s y ys" by auto
    from Cons.IH [OF this(2) this(1)] show ?thesis by auto
  qed
qed

lemma chain_head_fresh: "chain s e xs \<Longrightarrow> e \<notin> set xs"
proof
  assume c: "chain s e xs" and "e \<in> set xs"
  then obtain ys where "chain s e ys" "length ys < length xs"
    using chain_from_member by blast
  with c show False using chain_unique by fastforce
qed

lemma chain_distinct: "chain s e xs \<Longrightarrow> distinct (e # xs)"
proof (induction xs arbitrary: e)
  case Nil
  then show ?case by simp
next
  case (Cons x xs)
  from Cons.prems have "e \<notin> set (x # xs)" by (rule chain_head_fresh)
  moreover from Cons.prems have "chain s x xs" by simp
  then have "distinct (x # xs)" by (rule Cons.IH)
  ultimately show ?case by simp
qed

lemma walk_on_chain:
  "chain s e xs \<Longrightarrow>
   visited s p e = Some (e # takeWhile (\<lambda>x. pid (s x) = p) xs) \<and>
   (case dropWhile (\<lambda>x. pid (s x) = p) xs of
      [] \<Rightarrow> last_trailing s p e = Some None
    | n # _ \<Rightarrow>
        last_trailing s p e = Some (Some (last (e # takeWhile (\<lambda>x. pid (s x) = p) xs))) \<and>
        next_entry (s (last (e # takeWhile (\<lambda>x. pid (s x) = p) xs))) = Some n \<and>
        pid (s n) \<noteq> p)"
proof (induction xs arbitrary: e)
  case Nil
  then show ?case by (simp add: visited.simps last_trailing.simps)
next
  case (Cons x xs)
  then have nx: "next_entry (s e) = Some x" and c: "chain s x xs" by auto
  show ?case
  proof (cases "pid (s x) = p")
    case False
    with nx show ?thesis by (simp add: visited.simps [of s p e] last_trailing.simps [of s p e])
  next
    case True
    have v: "visited s p e = Option.bind (visited s p x) (\<lambda>vs. Some (e # vs))"
      using nx True by (simp add: visited.simps [of s p e])
    have l: "last_trailing s p e = last_trailing s p x"
      using nx True by (simp add: last_trailing.simps [of s p e])
    have tw: "takeWhile (\<lambda>x. pid (s x) = p) (x # xs) = x # takeWhile (\<lambda>x. pid (s x) = p) xs"
      and dw: "dropWhile (\<lambda>x. pid (s x) = p) (x # xs) = dropWhile (\<lambda>x. pid (s x) = p) xs"
      using True by simp_all
    have la: "last (e # x # takeWhile (\<lambda>x. pid (s x) = p) xs) =
              last (x # takeWhile (\<lambda>x. pid (s x) = p) xs)"
      by simp
    from Cons.IH [OF c] show ?thesis
      unfolding tw dw la v l by simp
  qed
qed

section \<open>Where the inner loop stops\<close>

lemma last_trailing_break:
  assumes "last_trailing s p e = Some r"
  shows "\<forall>b. r = Some b \<longrightarrow>
           (\<exists>n. next_entry (s b) = Some n \<and> pid (s n) \<noteq> p) \<and>
           (b = e \<or> pid (s b) = p) \<and> (e, b) \<in> (next_rel s)\<^sup>*"
  using assms
proof (induction rule: last_trailing.raw_induct [rotated 1, consumes 1])
  case (1 lt s p e r)
  show ?case
  proof (cases "next_entry (s e)")
    case None
    with 1(2) show ?thesis by simp
  next
    case (Some n)
    show ?thesis
    proof (cases "pid (s n) = p")
      case False
      with Some 1(2) show ?thesis by auto
    next
      case True
      with Some 1(2) have "lt s p n = Some r" by simp
      from 1(1) [OF this] have ih: "\<forall>b. r = Some b \<longrightarrow>
           (\<exists>m. next_entry (s b) = Some m \<and> pid (s m) \<noteq> p) \<and>
           (b = n \<or> pid (s b) = p) \<and> (n, b) \<in> (next_rel s)\<^sup>*" .
      have step: "(e, n) \<in> next_rel s" using Some by (simp add: next_rel_def)
      show ?thesis
      proof (intro allI impI)
        fix b assume "r = Some b"
        with ih have a: "\<exists>m. next_entry (s b) = Some m \<and> pid (s m) \<noteq> p"
          and b: "b = n \<or> pid (s b) = p" and c: "(n, b) \<in> (next_rel s)\<^sup>*" by auto
        from b True have "pid (s b) = p" by auto
        moreover from step c have "(e, b) \<in> (next_rel s)\<^sup>*" by (rule converse_rtrancl_into_rtrancl)
        ultimately show "(\<exists>n. next_entry (s b) = Some n \<and> pid (s n) \<noteq> p) \<and>
           (b = e \<or> pid (s b) = p) \<and> (e, b) \<in> (next_rel s)\<^sup>*" using a by simp
      qed
    qed
  qed
qed


lemma not_skipped_walk:
  assumes ns: "\<not> skips get_pid s d"
    and w: "last_trailing s (get_pid (field d)) (entry d) = Some (Some b)"
  shows "b \<noteq> entry d \<and> pid (s b) = get_pid (field d) \<and>
         (\<exists>n. next_entry (s b) = Some n \<and> pid (s n) \<noteq> get_pid (field d)) \<and>
         (entry d, b) \<in> (next_rel s)\<^sup>+"
proof -
  from ns obtain n where n: "next_entry (s (entry d)) = Some n"
    and pn: "pid (s n) = get_pid (field d)"
    by (auto simp: skips_def split: option.splits)
  from n pn w have "last_trailing s (get_pid (field d)) n = Some (Some b)"
    by (simp add: last_trailing.simps [of s _ "entry d"])
  from last_trailing_break [OF this]
  have succ: "\<exists>k. next_entry (s b) = Some k \<and> pid (s k) \<noteq> get_pid (field d)"
    and or: "b = n \<or> pid (s b) = get_pid (field d)"
    and reach: "(n, b) \<in> (next_rel s)\<^sup>*"
    by auto
  from or pn have "pid (s b) = get_pid (field d)" by auto
  moreover from succ n pn have "b \<noteq> entry d" by auto
  moreover from n have "(entry d, n) \<in> next_rel s" by (simp add: next_rel_def)
  from this reach have "(entry d, b) \<in> (next_rel s)\<^sup>+" by (rule rtrancl_into_trancl2)
  ultimately show ?thesis using succ by simp
qed

lemma elem_cases:
  assumes "secondPass_elem get_pid untouched d s = Some s'"
  shows "s' = s \<or>
         (\<exists>b. b \<noteq> entry d \<and> (entry d, b) \<in> (next_rel s)\<^sup>+ \<and>
              s' = mark_edited untouched (entry d) b s)"
proof (cases "skips get_pid s d")
  case True
  with assms show ?thesis by (simp add: secondPass_elem_def)
next
  case False
  show ?thesis
  proof (cases "last_trailing s (get_pid (field d)) (entry d)")
    case None
    with False assms show ?thesis by (simp add: secondPass_elem_def)
  next
    case (Some r)
    show ?thesis
    proof (cases r)
      case None
      with Some False assms show ?thesis by (simp add: secondPass_elem_def)
    next
      case (Some b)
      with \<open>last_trailing s (get_pid (field d)) (entry d) = Some r\<close>
      have w: "last_trailing s (get_pid (field d)) (entry d) = Some (Some b)" by simp
      from not_skipped_walk [OF False w] False w assms
      show ?thesis by (auto simp: secondPass_elem_def)
    qed
  qed
qed

lemma mark_edited_fields:
  "next_entry (mark_edited m sw b s a) = next_entry (s a)"
  "event_id (mark_edited m sw b s a) = event_id (s a)"
  "ts (mark_edited m sw b s a) = ts (s a)"
  "visible (mark_edited m sw b s a) AND NOT m = visible (s a) AND NOT m"
  by (simp_all add: mark_edited_def and.assoc)

lemma mark_edited_other: "a \<noteq> b \<Longrightarrow> mark_edited m sw b s a = s a"
  by (simp add: mark_edited_def)

lemma elem_fields:
  assumes "secondPass_elem get_pid m d s = Some s'"
  shows "next_entry (s' a) = next_entry (s a) \<and> event_id (s' a) = event_id (s a) \<and>
         ts (s' a) = ts (s a) \<and> visible (s' a) AND NOT m = visible (s a) AND NOT m"
  using elem_cases [OF assms] by (auto simp: mark_edited_fields)

lemma elem_next_rel:
  assumes "secondPass_elem get_pid m d s = Some s'"
  shows "next_rel s' = next_rel s"
  using elem_fields [OF assms] by (simp add: next_rel_def)

lemma elem_one_entry:
  assumes "secondPass_elem get_pid m d s = Some s'"
  shows "\<exists>b. \<forall>a. a \<noteq> b \<longrightarrow> s' a = s a"
  using elem_cases [OF assms] by (metis mark_edited_other)

lemma elem_changed_reach:
  assumes "secondPass_elem get_pid m d s = Some s'" and "s' a \<noteq> s a"
  shows "(entry d, a) \<in> (next_rel s)\<^sup>+"
proof -
  from elem_cases [OF assms(1)] assms(2)
  obtain b where b: "(entry d, b) \<in> (next_rel s)\<^sup>+" "s' = mark_edited m (entry d) b s"
    by auto
  with assms(2) have "a = b" by (metis mark_edited_other)
  with b show ?thesis by simp
qed

lemma loop_fields:
  "secondPass_loop get_pid m ds s = Some s' \<Longrightarrow>
   next_entry (s' a) = next_entry (s a) \<and> event_id (s' a) = event_id (s a) \<and>
   ts (s' a) = ts (s a) \<and> visible (s' a) AND NOT m = visible (s a) AND NOT m"
proof (induction ds arbitrary: s)
  case Nil
  then show ?case by simp
next
  case (Cons d ds)
  then obtain s1 where e: "secondPass_elem get_pid m d s = Some s1"
    and l: "secondPass_loop get_pid m ds s1 = Some s'"
    by (auto split: option.splits)
  from Cons.IH [OF l] elem_fields [OF e, of a] show ?case by simp
qed

lemma loop_next_rel:
  "secondPass_loop get_pid m ds s = Some s' \<Longrightarrow> next_rel s' = next_rel s"
  using loop_fields [of get_pid m ds s s'] by (simp add: next_rel_def)

lemma loop_changed:
  "secondPass_loop get_pid m ds s = Some s' \<Longrightarrow>
   finite {a. s' a \<noteq> s a} \<and> card {a. s' a \<noteq> s a} \<le> length ds \<and>
   (\<forall>a. s' a \<noteq> s a \<longrightarrow> (\<exists>d \<in> set ds. (entry d, a) \<in> (next_rel s)\<^sup>+))"
proof (induction ds arbitrary: s)
  case Nil
  then show ?case by simp
next
  case (Cons d ds)
  then obtain s1 where e: "secondPass_elem get_pid m d s = Some s1"
    and l: "secondPass_loop get_pid m ds s1 = Some s'"
    by (auto split: option.splits)
  from Cons.IH [OF l] have fin: "finite {a. s' a \<noteq> s1 a}"
    and crd: "card {a. s' a \<noteq> s1 a} \<le> length ds"
    and rch: "\<forall>a. s' a \<noteq> s1 a \<longrightarrow> (\<exists>d \<in> set ds. (entry d, a) \<in> (next_rel s1)\<^sup>+)"
    by auto
  from elem_one_entry [OF e] obtain b where b: "\<forall>a. a \<noteq> b \<longrightarrow> s1 a = s a" by blast
  then have sub: "{a. s' a \<noteq> s a} \<subseteq> insert b {a. s' a \<noteq> s1 a}" by auto
  have fin': "finite {a. s' a \<noteq> s a}"
    using sub fin by (meson finite_insert finite_subset)
  have "card {a. s' a \<noteq> s a} \<le> card (insert b {a. s' a \<noteq> s1 a})"
    using sub fin by (simp add: card_mono)
  also have "\<dots> \<le> Suc (card {a. s' a \<noteq> s1 a})"
    using fin by (simp add: card_insert_if)
  finally have crd': "card {a. s' a \<noteq> s a} \<le> length (d # ds)" using crd by simp
  have nr: "next_rel s1 = next_rel s" by (rule elem_next_rel [OF e])
  have rch': "\<forall>a. s' a \<noteq> s a \<longrightarrow> (\<exists>d' \<in> set (d # ds). (entry d', a) \<in> (next_rel s)\<^sup>+)"
  proof (intro allI impI)
    fix a assume ne: "s' a \<noteq> s a"
    show "\<exists>d' \<in> set (d # ds). (entry d', a) \<in> (next_rel s)\<^sup>+"
    proof (cases "s' a = s1 a")
      case True
      with ne have "s1 a \<noteq> s a" by simp
      from elem_changed_reach [OF e this] show ?thesis by auto
    next
      case False
      with rch nr show ?thesis by auto
    qed
  qed
  from fin' crd' rch' show ?case by blast
qed

section \<open>The pass returns on finite chains\<close>

lemma chain_same_next:
  "(\<And>a. next_entry (s' a) = next_entry (s a)) \<Longrightarrow> chain s' e xs = chain s e xs"
  by (induction xs arbitrary: e) simp_all

lemma elem_returns:
  assumes "chain s (entry d) xs"
  shows "\<exists>s'. secondPass_elem get_pid m d s = Some s'"
proof -
  from walk_on_chain [OF assms, of "get_pid (field d)"]
  obtain r where "last_trailing s (get_pid (field d)) (entry d) = Some r"
    by (cases "dropWhile (\<lambda>x. pid (s x) = get_pid (field d)) xs") auto
  then show ?thesis
    by (cases r) (simp_all add: secondPass_elem_def)
qed

lemma loop_returns:
  "(\<And>d. d \<in> set ds \<Longrightarrow> \<exists>xs. chain s (entry d) xs) \<Longrightarrow>
   \<exists>s'. secondPass_loop get_pid m ds s = Some s'"
proof (induction ds arbitrary: s)
  case Nil
  then show ?case by simp
next
  case (Cons d ds)
  from Cons.prems [of d] obtain xs where "chain s (entry d) xs" by auto
  from elem_returns [OF this] obtain s1 where e: "secondPass_elem get_pid m d s = Some s1"
    by blast
  have "\<exists>xs. chain s1 (entry d') xs" if "d' \<in> set ds" for d'
  proof -
    from that Cons.prems [of d'] obtain ys where "chain s (entry d') ys" by auto
    moreover have "chain s1 (entry d') ys = chain s (entry d') ys"
      by (rule chain_same_next) (simp add: elem_fields [OF e])
    ultimately show ?thesis by blast
  qed
  from Cons.IH [OF this] e show ?case by simp
qed

lemma secondPass_returns:
  assumes "\<And>d. d \<in> set (ss_data ctx) \<Longrightarrow> \<exists>xs. chain s (entry d) xs"
  shows "\<exists>s'. secondPass get_pid m (ctx, s) = Some (ctx, s')"
  using loop_returns [of "ss_data ctx" s get_pid m, OF assms]
  by (auto simp: secondPass_def)

section \<open>The claims about the second pass\<close>

text \<open>
  Claim C1, as the specification states it, fails on the code. In the example stream
  the recorded id of the switch event (7) does not differ from the task id of its
  successor, which is the fourth reason to skip in the specification's words; the code
  does not skip the element: it walks and rewrites the task id of entry 5 from 7 to 9.
\<close>

theorem skip_condition_counterexample:
  "spec_skip field_pid stream5 switch3 \<and>
   secondPass_elem field_pid 0x80 switch3 stream5 = Some once5 \<and>
   pid (stream5 5) = 7 \<and> pid (once5 5) = 9"
  using stream5_elem_once
  by (simp add: spec_skip_def switch3_def once5_at stream5_at trace_entry_def)

text \<open>
  Claim C1, amended. A container element is skipped, and the store is left as it is,
  exactly when its entry has no successor, or the entry's task id is zero, or the entry
  and its successor have the same event id, or the recorded id differs from the task id
  of the successor. In every other case the result is that of the walk: the store is
  unchanged when the walk runs off the chain, and the entry at which the walk breaks is
  edited otherwise.
\<close>

theorem skip_condition:
  "secondPass_elem get_pid untouched d s =
     (case next_entry (s (entry d)) of
        None \<Rightarrow> Some s
      | Some n \<Rightarrow>
          if pid (s (entry d)) = 0 \<or> event_id (s (entry d)) = event_id (s n) \<or>
             get_pid (field d) \<noteq> pid (s n)
          then Some s
          else map_option
                 (\<lambda>r. case r of None \<Rightarrow> s | Some e \<Rightarrow> mark_edited untouched (entry d) e s)
                 (last_trailing s (get_pid (field d)) (entry d)))"
  by (simp add: secondPass_elem_def skips_def split: option.splits)

theorem skip_condition_witness:
  "secondPass_elem field_pid 0x80 switch3 stream5 = Some (mark_edited 0x80 3 5 stream5) \<and>
   secondPass_elem field_pid 0x80 \<lparr>entry = 3, field = 8\<rparr> stream5 = Some stream5 \<and>
   secondPass_elem field_pid 0x80 \<lparr>entry = 6, field = 9\<rparr> stream5 = Some stream5 \<and>
   secondPass_elem field_pid 0x80 \<lparr>entry = 4, field = 7\<rparr> stream5 = Some stream5"
  using skip_condition [of field_pid "0x80" switch3 stream5]
    skip_condition [of field_pid "0x80" "\<lparr>entry = 3, field = 8\<rparr>" stream5]
    skip_condition [of field_pid "0x80" "\<lparr>entry = 6, field = 9\<rparr>" stream5]
    skip_condition [of field_pid "0x80" "\<lparr>entry = 4, field = 7\<rparr>" stream5]
  by (simp add: switch3_def stream5_at trace_entry_def stream5_walk)

text \<open>
  Claim C2, as the specification states it, fails on the code. The switch event of the
  example stream is not skipped and the walk breaks at entry 5, but entry 5 does not
  get the recorded id 7 (which it already carries): it gets 9, the task id of the
  switch event itself.
\<close>

theorem reassign_counterexample:
  "\<not> skips field_pid stream5 switch3 \<and>
   field_pid (field switch3) = 7 \<and>
   last_trailing stream5 (field_pid (field switch3)) (entry switch3) = Some (Some 5) \<and>
   secondPass_elem field_pid 0x80 switch3 stream5 = Some once5 \<and>
   pid (stream5 3) = 9 \<and> pid (once5 5) = 9"
  using stream5_not_skipped stream5_walk stream5_elem_once
  by (simp add: once5_at stream5_at trace_entry_def switch3_def)

text \<open>
  Claim C2, amended. For an element that is not skipped and whose walk returns: when
  the walk breaks at an entry \<open>b\<close>, then \<open>b\<close> is not the switch entry, it still
  carries the recorded id, its successor carries another id, and the result is the
  store in which \<open>b\<close> has the current task id of the switch entry (not the recorded
  id) and its untouched bit cleared, every other entry being as before. When the walk
  reaches the end of the chain first, nothing is changed.
\<close>

theorem reassign_last_trailing:
  assumes "\<not> skips get_pid s d"
    and "last_trailing s (get_pid (field d)) (entry d) = Some r"
  shows "case r of
           None \<Rightarrow> secondPass_elem get_pid untouched d s = Some s
         | Some b \<Rightarrow>
             b \<noteq> entry d \<and> pid (s b) = get_pid (field d) \<and>
             (\<exists>n. next_entry (s b) = Some n \<and> pid (s n) \<noteq> get_pid (field d)) \<and>
             secondPass_elem get_pid untouched d s =
               Some (s(b := (s b)\<lparr>pid := pid (s (entry d)),
                                 visible := visible (s b) AND NOT untouched\<rparr>))"
proof (cases r)
  case None
  with assms show ?thesis by (simp add: secondPass_elem_def)
next
  case (Some b)
  with assms(2) have "last_trailing s (get_pid (field d)) (entry d) = Some (Some b)" by simp
  from not_skipped_walk [OF assms(1) this] assms(1) this Some
  show ?thesis by (simp add: secondPass_elem_def mark_edited_def)
qed

theorem reassign_last_trailing_witness:
  "\<not> skips field_pid stream5 switch3 \<and>
   last_trailing stream5 7 3 = Some (Some 5) \<and>
   pid (stream5 5) = 7 \<and>
   (\<exists>n. next_entry (stream5 5) = Some n \<and> pid (stream5 n) \<noteq> 7) \<and>
   secondPass_elem field_pid 0x80 switch3 stream5 =
     Some (stream5(5 := (stream5 5)\<lparr>pid := 9, visible := 0x7F\<rparr>))"
proof -
  have w: "last_trailing stream5 (field_pid (field switch3)) (entry switch3) = Some (Some 5)"
    using stream5_walk by (simp add: switch3_def)
  from reassign_last_trailing [OF stream5_not_skipped w, of "0x80"]
  show ?thesis
    using stream5_not_skipped stream5_walk
    by (simp add: switch3_def stream5_at trace_entry_def)
qed

text \<open>
  Claim C3. In the stream of five entries where entry 3 is a switch event recorded with
  id 7 whose task id is already 9, entries 4 and 5 carry id 7 and the entry after entry
  5 carries id 9, one run of the second pass rewrites the task id of entry 5 from 7 to
  9 and clears its untouched bit (whatever bit the mask names); entries 1 to 4, and the
  entry after entry 5, are as before, and so is the context.
\<close>

theorem scenario_five_entries:
  "(case secondPass field_pid untouched (ctx5, stream5) of
      None \<Rightarrow> False
    | Some (ctx', s') \<Rightarrow>
        ctx' = ctx5 \<and>
        pid (stream5 5) = 7 \<and> pid (s' 5) = 9 \<and>
        visible (s' 5) AND untouched = 0 \<and>
        visible (s' 5) = visible (stream5 5) AND NOT untouched \<and>
        s' 1 = stream5 1 \<and> s' 2 = stream5 2 \<and> s' 3 = stream5 3 \<and> s' 4 = stream5 4 \<and>
        s' 6 = stream5 6)"
  by (simp add: stream5_pass mark_edited_def stream5_at trace_entry_def and_not_and_mask)

text \<open>
  Claim C4, as the specification states it, fails on the code. On the example stream
  one run of \<open>secondPass\<close> leaves entry 4 with task id 7; a second run finds entry 5
  already rewritten, stops one entry earlier and gives entry 4 the task id 9.
\<close>

theorem idempotence_counterexample:
  "secondPass field_pid 0x80 (ctx5, stream5) = Some (ctx5, once5) \<and>
   secondPass field_pid 0x80 (ctx5, once5) = Some (ctx5, twice5) \<and>
   pid (once5 4) = 7 \<and> pid (twice5 4) = 9"
  by (simp add: stream5_pass_once once5_pass once5_at twice5_def trace_entry_def)

text \<open>
  Claim C4, amended. The second pass as \<open>plugin_draw\<close> runs it, behind the flag
  \<open>second_pass_done\<close>, is idempotent: when it returns, running it again on the
  result changes neither the context nor any entry.
\<close>

theorem guarded_pass_idempotent:
  "second_pass_once get_pid untouched st = Some st' \<Longrightarrow>
   second_pass_once get_pid untouched st' = Some st'"
  by (auto simp: second_pass_once_def split: if_splits option.splits)

theorem guarded_pass_idempotent_witness:
  "second_pass_once field_pid 0x80 (ctx5, stream5) =
     Some (ctx5\<lparr>second_pass_done := True\<rparr>, mark_edited 0x80 3 5 stream5) \<and>
   second_pass_once field_pid 0x80 (ctx5\<lparr>second_pass_done := True\<rparr>, mark_edited 0x80 3 5 stream5) =
     Some (ctx5\<lparr>second_pass_done := True\<rparr>, mark_edited 0x80 3 5 stream5)"
  using guarded_pass_idempotent [OF stream5_once] stream5_once by simp

text \<open>
  Claim C8. On a finite chain, one that reaches the null pointer after the entries
  \<open>xs\<close>, the entries of the chain are pairwise different, the walk returns, and the
  entries it visits are the start followed by the longest run of successors that carry
  the recorded id: a prefix of the chain, so it moves forward only and visits no entry
  twice. It stops at the first successor with another task id, answering with the
  entry before it, or at the null pointer, answering with no entry; the iteration of
  the pass then leaves the store as it is.
\<close>

theorem walk_terminates:
  assumes "chain s e xs"
  shows "distinct (e # xs) \<and>
         visited s p e = Some (e # takeWhile (\<lambda>x. pid (s x) = p) xs) \<and>
         (case dropWhile (\<lambda>x. pid (s x) = p) xs of
            [] \<Rightarrow>
              last_trailing s p e = Some None \<and>
              (\<forall>get_pid untouched d. entry d = e \<and> get_pid (field d) = p \<longrightarrow>
                 secondPass_elem get_pid untouched d s = Some s)
          | n # _ \<Rightarrow>
              last_trailing s p e = Some (Some (last (e # takeWhile (\<lambda>x. pid (s x) = p) xs))) \<and>
              next_entry (s (last (e # takeWhile (\<lambda>x. pid (s x) = p) xs))) = Some n \<and>
              pid (s n) \<noteq> p)"
proof -
  from chain_distinct [OF assms] have d: "distinct (e # xs)" .
  from walk_on_chain [OF assms, of p]
  have v: "visited s p e = Some (e # takeWhile (\<lambda>x. pid (s x) = p) xs)"
    and w: "case dropWhile (\<lambda>x. pid (s x) = p) xs of
              [] \<Rightarrow> last_trailing s p e = Some None
            | n # _ \<Rightarrow>
                last_trailing s p e =
                  Some (Some (last (e # takeWhile (\<lambda>x. pid (s x) = p) xs))) \<and>
                next_entry (s (last (e # takeWhile (\<lambda>x. pid (s x) = p) xs))) = Some n \<and>
                pid (s n) \<noteq> p"
    by blast+
  show ?thesis
  proof (cases "dropWhile (\<lambda>x. pid (s x) = p) xs")
    case Nil
    from w have lt: "last_trailing s p e = Some None" by (simp only: Nil list.case)
    have "\<forall>get_pid untouched d. entry d = e \<and> get_pid (field d) = p \<longrightarrow>
            secondPass_elem get_pid untouched d s = Some s"
      using lt by (simp add: secondPass_elem_def)
    with d v lt show ?thesis by (simp only: Nil list.case simp_thms)
  next
    case (Cons n ns)
    from w have "last_trailing s p e =
                   Some (Some (last (e # takeWhile (\<lambda>x. pid (s x) = p) xs))) \<and>
                 next_entry (s (last (e # takeWhile (\<lambda>x. pid (s x) = p) xs))) = Some n \<and>
                 pid (s n) \<noteq> p"
      by (simp only: Cons list.case simp_thms)
    with d v show ?thesis by (simp only: Cons list.case simp_thms)
  qed
qed

theorem walk_terminates_witness:
  "chain stream5 3 [4, 5, 6] \<and> visited stream5 7 3 = Some [3, 4, 5] \<and>
   last_trailing stream5 7 3 = Some (Some 5) \<and> next_entry (stream5 5) = Some 6 \<and>
   chain stream5 4 [5, 6] \<and> visited stream5 9 4 = Some [4] \<and>
   last_trailing stream5 9 4 = Some (Some 4) \<and>
   chain stream5 5 [6] \<and> visited stream5 9 5 = Some [5, 6] \<and>
   last_trailing stream5 9 5 = Some None"
proof -
  have c: "chain stream5 3 [4, 5, 6]" "chain stream5 4 [5, 6]" "chain stream5 5 [6]"
    by (simp_all add: stream5_at trace_entry_def)
  from walk_terminates [OF c(1), of 7] walk_terminates [OF c(2), of 9]
    walk_terminates [OF c(3), of 9] c
  show ?thesis by (simp add: stream5_at trace_entry_def)
qed

text \<open>
  Claim C10, as stated, fails on the code: the entries that the pass mutates need not
  be entries the container refers to. In the example stream the container refers to
  entry 3 only; the pass leaves entry 3 as it is and rewrites entry 5, a trailing
  entry that no container element refers to.
\<close>

theorem frame_counterexample:
  "map entry (ss_data ctx5) = [3] \<and>
   secondPass field_pid 0x80 (ctx5, stream5) = Some (ctx5, once5) \<and>
   once5 3 = stream5 3 \<and>
   pid (stream5 5) = 7 \<and> pid (once5 5) = 9 \<and>
   visible (stream5 5) = 0xFF \<and> visible (once5 5) = 0x7F"
  using stream5_pass_once
  by (simp add: ctx5_def switch3_def once5_at stream5_at trace_entry_def)

text \<open>
  Claim C10, amended. When \<open>secondPass\<close> returns, the context, and with it the
  container, its size, its pairs and their field values, is the one it was given; in
  every entry the successor link, the event id, the timestamp and all visibility bits
  but the untouched bit are as before; an entry that changed is not in general one the
  container refers to, but one reached from the entry of a container element by
  following the successor links for one or more steps; the entries that changed are at
  most as many as the container has elements, and one iteration of the loop changes at
  most one entry.
\<close>

theorem secondPass_frame:
  assumes "secondPass get_pid untouched (ctx, s) = Some (ctx', s')"
  shows "ctx' = ctx \<and>
         (\<forall>a. next_entry (s' a) = next_entry (s a) \<and> event_id (s' a) = event_id (s a) \<and>
              ts (s' a) = ts (s a) \<and>
              visible (s' a) AND NOT untouched = visible (s a) AND NOT untouched) \<and>
         (\<forall>a. s' a \<noteq> s a \<longrightarrow>
              (\<exists>d \<in> set (ss_data ctx). (entry d, a) \<in> (next_rel s)\<^sup>+)) \<and>
         finite {a. s' a \<noteq> s a} \<and> card {a. s' a \<noteq> s a} \<le> length (ss_data ctx) \<and>
         (\<forall>d t t'. secondPass_elem get_pid untouched d t = Some t' \<longrightarrow>
              (\<exists>b. \<forall>a. a \<noteq> b \<longrightarrow> t' a = t a))"
proof -
  from assms have l: "secondPass_loop get_pid untouched (ss_data ctx) s = Some s'"
    and c: "ctx' = ctx"
    by (auto simp: secondPass_def split: option.splits)
  from c loop_fields [OF l] loop_changed [OF l] elem_one_entry
  show ?thesis by blast
qed

theorem secondPass_frame_witness:
  "secondPass field_pid 0x80 (ctx5, stream5) = Some (ctx5, mark_edited 0x80 3 5 stream5) \<and>
   (\<forall>a. next_entry (mark_edited 0x80 3 5 stream5 a) = next_entry (stream5 a) \<and>
        event_id (mark_edited 0x80 3 5 stream5 a) = event_id (stream5 a) \<and>
        ts (mark_edited 0x80 3 5 stream5 a) = ts (stream5 a) \<and>
        visible (mark_edited 0x80 3 5 stream5 a) AND NOT 0x80 = visible (stream5 a) AND NOT 0x80) \<and>
   card {a. mark_edited 0x80 3 5 stream5 a \<noteq> stream5 a} \<le> 1"
  using secondPass_frame [OF stream5_pass [of "0x80"]] stream5_pass [of "0x80"]
  by (simp add: ctx5_def)

section \<open>The claims about shapes\<close>

lemma DBL_MAX_pos: "0 < DBL_MAX"
  by (simp add: DBL_MAX_def)

text \<open>
  Claim C5. \<open>distance\<close> is zero exactly for the points with \<open>pointX 0 \<le> x \<le> pointX 2\<close>
  and \<open>pointY 0 \<le> y \<le> pointY 1\<close>, it is the largest double exactly for the points
  outside these bounds, and it has no other result.
\<close>

theorem distance_exact:
  "(distance r x y = 0) =
     (pointX r 0 \<le> x \<and> x \<le> pointX r 2 \<and> pointY r 0 \<le> y \<and> y \<le> pointY r 1) \<and>
   (distance r x y = DBL_MAX) =
     (x < pointX r 0 \<or> pointX r 2 < x \<or> y < pointY r 0 \<or> pointY r 1 < y) \<and>
   (distance r x y = 0 \<or> distance r x y = DBL_MAX)"
  using DBL_MAX_pos by (auto simp: distance_def)

lemma bit_length_bounds: "0 < n \<Longrightarrow> 2 ^ (bit_length n - 1) \<le> n \<and> n < 2 ^ bit_length n"
proof (induction n rule: bit_length.induct)
  case (1 n)
  show ?case
  proof (cases "n div 2 = 0")
    case True
    with 1(2) have "n = 1" by (simp add: div_eq_0_iff) 
    then show ?thesis by (simp add: bit_length.simps [of "Suc 0"] bit_length.simps [of 0])
  next
    case False
    then have pos: "0 < n div 2" by simp
    from 1(2) have n0: "n \<noteq> 0" by simp
    from 1(1) [OF n0 pos] have lo: "2 ^ (bit_length (n div 2) - 1) \<le> n div 2"
      and hi: "n div 2 < 2 ^ bit_length (n div 2)" by simp_all
    have bl: "bit_length n = Suc (bit_length (n div 2))" using n0 by (simp add: bit_length.simps [of n])
    from pos have "0 < bit_length (n div 2)" by (simp add: bit_length.simps [of "n div 2"])
    then have e: "bit_length n - 1 = Suc (bit_length (n div 2) - 1)" using bl by simp
    have "2 ^ (bit_length n - 1) = 2 * 2 ^ (bit_length (n div 2) - 1)" unfolding e by simp
    also have "\<dots> \<le> 2 * (n div 2)" using lo by simp
    also have "\<dots> \<le> n" by simp
    finally have a: "2 ^ (bit_length n - 1) \<le> n" .
    have "n < 2 * (n div 2) + 2" by presburger
    also have "\<dots> \<le> 2 * 2 ^ bit_length (n div 2)" using hi by simp
    also have "\<dots> = 2 ^ bit_length n" unfolding bl by simp
    finally have b: "n < 2 ^ bit_length n" .
    from a b show ?thesis by simp
  qed
qed

lemma bit_length_eq:
  assumes "2 ^ k \<le> n" "n < 2 ^ Suc k"
  shows "bit_length n = Suc k"
proof -
  from assms(1) have pos: "0 < n" by (metis gr0I not_less power_not_zero zero_less_numeral le_zero_eq)
  from bit_length_bounds [OF pos] have lo: "2 ^ (bit_length n - 1) \<le> n" and hi: "n < 2 ^ bit_length n"
    by simp_all
  from assms(1) hi have "(2::nat) ^ k < 2 ^ bit_length n" by (rule le_less_trans)
  then have a: "k < bit_length n" by simp
  from lo assms(2) have "(2::nat) ^ (bit_length n - 1) < 2 ^ Suc k" by (rule le_less_trans)
  then have "bit_length n - 1 < Suc k" by (simp only: power_strict_increasing_iff rel_simps)
  with a show ?thesis by simp
qed

text \<open>
  The product with 0.3 in double arithmetic, cut to an integer, is the exact 30 percent
  rounded down, for every row height a 32-bit \<^verbatim>\<open>int\<close> can hold that is not negative.
  The double nearest to 0.3 is \<open>0.3 - 2 / (10 * 2 ^ 54)\<close>; the rounding of the product
  makes up for the missing part when 30 percent of the height is a whole number, and
  it is too small to reach the next whole number otherwise.
\<close>

lemma bit_length_zero: "bit_length 0 = 0"
  by (simp add: bit_length.simps [of 0])

lemma bit_length_le: "n < 2 ^ k \<Longrightarrow> bit_length n \<le> k"
proof (cases "n = 0")
  case True
  then show ?thesis by (simp add: bit_length_zero)
next
  case False
  assume "n < 2 ^ k"
  from False have "0 < n" by simp
  from bit_length_bounds [OF this] have "2 ^ (bit_length n - 1) \<le> n" by simp
  from this \<open>n < 2 ^ k\<close> have "(2::nat) ^ (bit_length n - 1) < 2 ^ k" by (rule le_less_trans)
  then have "bit_length n - 1 < k" by (simp only: power_strict_increasing_iff rel_simps)
  then show ?thesis by simp
qed

lemma round_to_53_near:
  "2 * round_to_53 n \<le> 2 * n + 2 ^ (bit_length n - 53) \<and>
   2 * n \<le> 2 * round_to_53 n + 2 ^ (bit_length n - 53)"
proof -
  define P :: nat where "P = 2 ^ (bit_length n - 53)"
  define q where "q = n div P"
  define r where "r = n mod P"
  have P: "0 < P" by (simp add: P_def)
  have n: "n = q * P + r" by (simp add: q_def r_def)
  have r: "r < P" using P by (simp add: r_def)
  have R: "round_to_53 n = (if 2 * r > P \<or> (2 * r = P \<and> odd q) then (q + 1) * P else q * P)"
    by (simp add: round_to_53_def Let_def P_def q_def r_def)
  show ?thesis
    unfolding P_def [symmetric] R using n r by (auto simp: algebra_simps)
qed


lemma round_to_53_exact:
  assumes j: "0 < j" "j < 2 ^ 31"
  shows "round_to_53 (3 * j * 2 ^ 54 - 2 * j) = 3 * j * 2 ^ 54"
proof -
  define n :: nat where "n = 3 * j * 2 ^ 54 - 2 * j"
  define sh where "sh = bit_length n - 53"
  define P :: nat where "P = 2 ^ sh"
  have n_eq: "n + 2 * j = 3 * j * 2 ^ 54" using j by (simp add: n_def)
  have n_lo: "4 * j * 2 ^ 53 \<le> n" using j by (simp add: n_def)
  have n_hi: "n < 2 ^ 87" using j n_eq by simp
  have pos: "0 < n" using n_lo j by simp
  from bit_length_bounds [OF pos] have hi: "n < 2 ^ bit_length n" by simp
  have "(2::nat) ^ 53 \<le> 4 * j * 2 ^ 53" using j by simp
  with n_lo hi have "(2::nat) ^ 53 < 2 ^ bit_length n" by linarith
  then have L53: "53 < bit_length n" by (simp only: power_strict_increasing_iff rel_simps)
  have L87: "bit_length n \<le> 87" by (rule bit_length_le [OF n_hi])
  from L53 have L: "bit_length n = 53 + sh" by (simp add: sh_def)
  from L87 L have sh: "sh \<le> 34" by simp
  have "n < 2 ^ 53 * P" using hi unfolding L P_def by (simp add: power_add)
  with n_lo have jP: "4 * j < P" by simp
  have "(2::nat) ^ 54 = 2 ^ (54 - sh) * 2 ^ sh" using sh by (simp flip: power_add)
  then have split: "(2::nat) ^ 54 = 2 ^ (54 - sh) * P" by (simp add: P_def)
  define c where "c = 3 * j * 2 ^ (54 - sh)"
  have cP: "c * P = 3 * j * 2 ^ 54" unfolding c_def using split by simp
  have c1: "1 \<le> c" using j by (simp add: c_def)
  have "n = (c - 1) * P + (P - 2 * j)"
  proof -
    have a: "P - 2 * j + 2 * j = P" using jP by linarith
    have "(c - 1) * P + (P - 2 * j) + 2 * j = (c - 1) * P + (P - 2 * j + 2 * j)"
      by (simp only: add.assoc)
    also have "\<dots> = (c - 1) * P + P" by (simp only: a)
    also have "\<dots> = (c - 1 + 1) * P" by (simp only: add_mult_distrib mult_1)
    also have "\<dots> = c * P" using c1 by simp
    also have "\<dots> = n + 2 * j" by (simp only: cP n_eq)
    finally show ?thesis by (simp only: add_right_cancel)
  qed
  moreover have rP: "P - 2 * j < P" using jP j by linarith
  ultimately have q: "n div P = c - 1" and r: "n mod P = P - 2 * j" by simp_all
  have up: "2 * (P - 2 * j) > P" using jP by linarith
  have "round_to_53 n = (c - 1 + 1) * P"
    using up by (simp add: round_to_53_def Let_def sh_def [symmetric] P_def [symmetric] q r)
  also have "\<dots> = c * P" using c1 by simp
  finally show ?thesis using cP by (simp add: n_def)
qed


lemma round_times_dot3:
  assumes n: "n < 2 ^ 31"
  shows "round_to_53 (n * 5404319552844595) div 2 ^ 54 = (3 * n) div 10"
proof (cases "n mod 10 = 0")
  case True
  then obtain j where nj: "n = 10 * j" by auto
  show ?thesis
  proof (cases "j = 0")
    case True
    with nj show ?thesis
      by (simp add: round_to_53_def Let_def bit_length_zero)
  next
    case False
    with nj n have j: "0 < j" "j < 2 ^ 31" by simp_all
    have "n * 5404319552844595 = 3 * j * 2 ^ 54 - 2 * j" unfolding nj by simp
    with round_to_53_exact [OF j] have "round_to_53 (n * 5404319552844595) = 3 * j * 2 ^ 54"
      by simp
    then show ?thesis unfolding nj by simp
  qed
next
  case False
  define N where "N = n * 5404319552844595"
  define R where "R = round_to_53 N"
  define P :: nat where "P = 2 ^ (bit_length N - 53)"
  define k where "k = (3 * n) div 10"
  define rho where "rho = (3 * n) mod 10"
  have rho: "1 \<le> rho" "rho \<le> 9" using False unfolding rho_def by presburger+
  have n3: "3 * n = 10 * k + rho" by (simp add: k_def rho_def)
  have N10: "10 * N + 2 * n = 54043195528445952 * n" by (simp add: N_def)
  have "N < 2 ^ 84" using n unfolding N_def by simp
  then have "bit_length N \<le> 84" by (rule bit_length_le)
  then have "bit_length N - 53 \<le> 31" by simp
  then have "(2::nat) ^ (bit_length N - 53) \<le> 2 ^ 31"
    by (simp only: power_increasing_iff rel_simps)
  then have P: "P \<le> 2147483648" by (simp add: P_def)
  from round_to_53_near [of N]
  have near: "2 * R \<le> 2 * N + P" "2 * N \<le> 2 * R + P"
    by (simp_all add: R_def P_def)
  have n': "n < 2147483648" using n by simp
  have lo: "18014398509481984 * k \<le> R"
    using near P n' n3 N10 rho by linarith
  have "R < 18014398509481984 * k + 18014398509481984"
    using near P n' n3 N10 rho by linarith
  then have hi: "R < 18014398509481984 * Suc k" by simp
  have "R div 18014398509481984 = k"
    using lo hi by (rule div_nat_eqI)
  then show ?thesis by (simp add: R_def N_def k_def)
qed

lemma times_dot3_floor:
  assumes "0 \<le> h" "h < 2 ^ 31"
  shows "times_dot3 h = (3 * h) div 10"
proof (cases "h = 0")
  case True
  then show ?thesis by (simp add: times_dot3_def)
next
  case False
  with assms have pos: "0 < h" by simp
  from assms have "nat h < 2 ^ 31" by simp
  from round_times_dot3 [OF this]
  have "int (round_to_53 (nat h * 5404319552844595) div 2 ^ 54) = int ((3 * nat h) div 10)"
    by simp
  also have "\<dots> = (3 * h) div 10" using pos by (simp add: zdiv_int)
  finally show ?thesis using pos by (simp add: times_dot3_def)
qed

lemma times_dot3_10: "times_dot3 10 = 3"
proof -
  have "bit_length 54043195528445950 = Suc 55"
    by (rule bit_length_eq) simp_all
  then show ?thesis
    by (simp add: times_dot3_def round_to_53_def Let_def)
qed

lemma wrap_int_range: "in_int (wrap_int x)"
proof -
  have "0 \<le> (x + 2147483648) mod 4294967296" "(x + 2147483648) mod 4294967296 < (4294967296 :: int)"
    by simp_all
  then show ?thesis by (simp add: in_int_def wrap_int_def)
qed

lemma wrap_int_id: "in_int x \<Longrightarrow> wrap_int x = x"
proof -
  assume "in_int x"
  then have "0 \<le> x + 2 ^ 31" "x + 2 ^ 31 < 2 ^ 32" by (simp_all add: in_int_def)
  then have "(x + 2 ^ 31) mod 2 ^ 32 = x + 2 ^ 31" by (rule mod_pos_pos_trivial)
  then show ?thesis by (simp add: wrap_int_def)
qed

lemma sub_int_exact: "in_int (a - b) \<Longrightarrow> sub_int a b = a - b"
  by (simp add: sub_int_def wrap_int_id)

lemma makeShape_points:
  "makeShape (g # gs) (b0 # b1 # bs) data col sz =
     (let p0 = bin_base g b0; p1 = bin_base g b1; height = times_dot3 (graph_height g)
      in Some \<lparr>shape_points =
                 [(sub_int (fst p0) 1, sub_int (snd p0) height),
                  (sub_int (fst p0) 1, sub_int (snd p0) 1),
                  (sub_int (fst p1) 1, sub_int (snd p1) 1),
                  (sub_int (fst p1) 1, sub_int (snd p1) height)],
               shape_fill = False, shape_size = sz, shape_color = col, shape_data = data\<rparr>)"
  by (simp add: makeShape_def new_LatencyBox_def setPoint_def Let_def numeral_eq_Suc)

lemma example_shape:
  "makeShape [example_graph] [2, 9] [] \<lparr>red = 0, green = 255, blue = 0\<rparr> (- 1) =
     Some example_box"
  unfolding makeShape_points
  by (simp add: example_graph_def times_dot3_10 example_box_def sub_int_def wrap_int_def)

text \<open>
  Claim C9, as stated, fails on the code. For bins with base points (20, 100) and
  (90, 100) in a row of height 10 the rectangle does not start at x = 20 and does not
  stand on the base line: its corners are at x = 19 and x = 89, and it reaches from
  y = 97 to y = 99, a vertical extent of 2 and not of 3.
\<close>

theorem makeShape_counterexample:
  "makeShape [example_graph] [2, 9] [] \<lparr>red = 0, green = 255, blue = 0\<rparr> (- 1) =
     Some example_box \<and>
   bin_base example_graph 2 = (20, 100) \<and> bin_base example_graph 9 = (90, 100) \<and>
   graph_height example_graph = 10 \<and>
   pointX example_box 0 = 19 \<and> pointX example_box 2 = 89 \<and>
   pointY example_box 0 = 97 \<and> pointY example_box 1 = 99"
  by (simp add: example_shape)
    (simp add: example_graph_def example_box_def pointX_def pointY_def)

text \<open>
  Claim C9, amended. For every graph, pair of bins, data, color and size, \<open>makeShape\<close>
  returns an unfilled rectangle with the given color, size and data. Its corners are
  computed in 32-bit \<^verbatim>\<open>int\<close> arithmetic, so every coordinate is an \<^verbatim>\<open>int\<close>, and a
  difference that leaves the range wraps around. Where no difference leaves the range,
  the corners lie one pixel left of the base points of the two bins, so that the width
  is the distance between the two base positions, and the rectangle reaches from
  \<open>height\<close> above the base line to one pixel above it. \<open>height\<close> is the row height
  times 0.3 in double arithmetic with the fraction dropped: 30 percent of the row
  height, rounded down, for every row height from 0 up to the largest \<^verbatim>\<open>int\<close>.
\<close>

theorem makeShape_rectangle:
  "makeShape (g # gs) (b0 # b1 # bs) data col sz =
     (let p0 = bin_base g b0; p1 = bin_base g b1; height = times_dot3 (graph_height g)
      in Some \<lparr>shape_points =
                 [(sub_int (fst p0) 1, sub_int (snd p0) height),
                  (sub_int (fst p0) 1, sub_int (snd p0) 1),
                  (sub_int (fst p1) 1, sub_int (snd p1) 1),
                  (sub_int (fst p1) 1, sub_int (snd p1) height)],
               shape_fill = False, shape_size = sz, shape_color = col, shape_data = data\<rparr>) \<and>
   (case makeShape (g # gs) (b0 # b1 # bs) data col sz of
      None \<Rightarrow> False
    | Some r \<Rightarrow>
        in_int (pointX r 0) \<and> in_int (pointX r 1) \<and> in_int (pointX r 2) \<and>
        in_int (pointX r 3) \<and> in_int (pointY r 0) \<and> in_int (pointY r 1) \<and>
        in_int (pointY r 2) \<and> in_int (pointY r 3)) \<and>
   (in_int (fst (bin_base g b0) - 1) \<and> in_int (fst (bin_base g b1) - 1) \<and>
    in_int (snd (bin_base g b0) - 1) \<and> in_int (snd (bin_base g b1) - 1) \<and>
    in_int (snd (bin_base g b0) - times_dot3 (graph_height g)) \<and>
    in_int (snd (bin_base g b1) - times_dot3 (graph_height g)) \<longrightarrow>
      (let p0 = bin_base g b0; p1 = bin_base g b1; height = times_dot3 (graph_height g)
       in makeShape (g # gs) (b0 # b1 # bs) data col sz =
            Some \<lparr>shape_points =
                    [(fst p0 - 1, snd p0 - height), (fst p0 - 1, snd p0 - 1),
                     (fst p1 - 1, snd p1 - 1), (fst p1 - 1, snd p1 - height)],
                  shape_fill = False, shape_size = sz, shape_color = col,
                  shape_data = data\<rparr>) \<and>
      (case makeShape (g # gs) (b0 # b1 # bs) data col sz of
         None \<Rightarrow> False
       | Some r \<Rightarrow>
           pointX r 2 - pointX r 0 = fst (bin_base g b1) - fst (bin_base g b0) \<and>
           pointY r 0 = snd (bin_base g b0) - times_dot3 (graph_height g) \<and>
           pointY r 1 = snd (bin_base g b0) - 1)) \<and>
   (0 \<le> graph_height g \<and> graph_height g < 2 ^ 31 \<longrightarrow>
      times_dot3 (graph_height g) = (3 * graph_height g) div 10)"
proof -
  have range: "in_int (sub_int a b)" for a b
    by (simp add: sub_int_def wrap_int_range)
  show ?thesis
    unfolding makeShape_points
    by (simp add: Let_def pointX_def pointY_def times_dot3_floor range sub_int_exact)
qed

theorem makeShape_rectangle_witness:
  "in_int (fst (bin_base example_graph 2) - 1) \<and> in_int (fst (bin_base example_graph 9) - 1) \<and>
   in_int (snd (bin_base example_graph 2) - 1) \<and> in_int (snd (bin_base example_graph 9) - 1) \<and>
   in_int (snd (bin_base example_graph 2) - times_dot3 (graph_height example_graph)) \<and>
   in_int (snd (bin_base example_graph 9) - times_dot3 (graph_height example_graph)) \<and>
   makeShape [example_graph] [2, 9] [] \<lparr>red = 255, green = 0, blue = 0\<rparr> (- 1) =
     Some \<lparr>shape_points = [(19, 97), (19, 99), (89, 99), (89, 97)],
            shape_fill = False, shape_size = - 1,
            shape_color = \<lparr>red = 255, green = 0, blue = 0\<rparr>, shape_data = []\<rparr> \<and>
   0 \<le> graph_height example_graph \<and> graph_height example_graph < 2 ^ 31 \<and>
   times_dot3 (graph_height example_graph) = 3 \<and>
   makeShape [edge_graph] [2, 9] [] \<lparr>red = 255, green = 0, blue = 0\<rparr> (- 1) =
     Some \<lparr>shape_points = [(2147483647, 97), (2147483647, 99), (2147483647, 99),
                            (2147483647, 97)],
            shape_fill = False, shape_size = - 1,
            shape_color = \<lparr>red = 255, green = 0, blue = 0\<rparr>, shape_data = []\<rparr>"
proof -
  have h: "times_dot3 (graph_height example_graph) = 3" "times_dot3 (graph_height edge_graph) = 3"
    by (simp_all add: example_graph_def edge_graph_def times_dot3_10)
  have r: "in_int (fst (bin_base example_graph 2) - 1)" "in_int (fst (bin_base example_graph 9) - 1)"
    "in_int (snd (bin_base example_graph 2) - 1)" "in_int (snd (bin_base example_graph 9) - 1)"
    "in_int (snd (bin_base example_graph 2) - times_dot3 (graph_height example_graph))"
    "in_int (snd (bin_base example_graph 9) - times_dot3 (graph_height example_graph))"
    unfolding h by (simp_all add: example_graph_def in_int_def)
  from makeShape_rectangle [of example_graph "[]" 2 9 "[]" "[]"
      "\<lparr>red = 255, green = 0, blue = 0\<rparr>" "- 1"] r
  have a: "makeShape [example_graph] [2, 9] [] \<lparr>red = 255, green = 0, blue = 0\<rparr> (- 1) =
     Some \<lparr>shape_points = [(19, 97), (19, 99), (89, 99), (89, 97)],
            shape_fill = False, shape_size = - 1,
            shape_color = \<lparr>red = 255, green = 0, blue = 0\<rparr>, shape_data = []\<rparr>"
    unfolding h by (simp add: Let_def example_graph_def sub_int_def wrap_int_def)
  from makeShape_rectangle [of edge_graph "[]" 2 9 "[]" "[]"
      "\<lparr>red = 255, green = 0, blue = 0\<rparr>" "- 1"]
  have b: "makeShape [edge_graph] [2, 9] [] \<lparr>red = 255, green = 0, blue = 0\<rparr> (- 1) =
     Some \<lparr>shape_points = [(2147483647, 97), (2147483647, 99), (2147483647, 99),
                            (2147483647, 97)],
            shape_fill = False, shape_size = - 1,
            shape_color = \<lparr>red = 255, green = 0, blue = 0\<rparr>, shape_data = []\<rparr>"
    unfolding h by (simp add: Let_def edge_graph_def sub_int_def wrap_int_def)
  from r a b h show ?thesis by (simp add: example_graph_def)
qed

section \<open>The claims about the draw function\<close>

lemma draw_early_return:
  "draw_action AND KSHARK_TASK_DRAW h = 0 \<or> task = 0 \<or> contexts st sd = None \<Longrightarrow>
   plugin_draw h argv_c sd task draw_action st = Some ([], st)"
  by (auto simp: plugin_draw_def)

lemma once_flag:
  "second_pass_once get_pid m (c, s) = Some (c', s') \<Longrightarrow>
   second_pass_done c' \<and> (second_pass_done c \<longrightarrow> c' = c \<and> s' = s)"
  by (auto simp: second_pass_once_def split: if_splits option.splits)

lemma draw_step:
  assumes "plugin_draw h argv_c sd task draw_action st = Some (shapes, st')"
  shows "(pass_done st sd \<longrightarrow> pass_done st' sd \<and> entries st' = entries st) \<and>
         (draw_action AND KSHARK_TASK_DRAW h \<noteq> 0 \<and> task \<noteq> 0 \<and> contexts st sd \<noteq> None \<longrightarrow>
            pass_done st' sd) \<and>
         (entries st' \<noteq> entries st \<longrightarrow> \<not> pass_done st sd \<and> pass_done st' sd)"
proof (cases "draw_action AND KSHARK_TASK_DRAW h = 0 \<or> task = 0 \<or> contexts st sd = None")
  case True
  from draw_early_return [OF True] assms have "st' = st" by simp
  with True show ?thesis by auto
next
  case False
  then obtain c where c: "contexts st sd = Some c" by auto
  with False assms obtain c' s' where
    o: "second_pass_once (plugin_sched_get_pid h) (KS_PLUGIN_UNTOUCHED_MASK h) (c, entries st) = Some (c', s')"
    and st': "st' = st\<lparr>contexts := (contexts st)(sd \<mapsto> c'), entries := s'\<rparr>"
    by (auto simp: plugin_draw_def split: option.splits)
  from once_flag [OF o] c st' show ?thesis
    by (auto simp: pass_done_def)
qed

lemma draw_run_steps:
  "draw_run h sd cs st = Some sts \<Longrightarrow>
   length sts = length cs \<and>
   (\<forall>i < length cs. \<exists>shapes.
      plugin_draw h (fst (cs ! i)) sd (fst (snd (cs ! i))) (snd (snd (cs ! i))) ((st # sts) ! i) =
        Some (shapes, sts ! i))"
proof (induction cs arbitrary: st sts)
  case Nil
  then show ?case by simp
next
  case (Cons c cs)
  then obtain r sts' where r: "plugin_draw h (fst c) sd (fst (snd c)) (snd (snd c)) st = Some r"
    and l: "draw_run h sd cs (snd r) = Some sts'" and sts: "sts = snd r # sts'"
    by (auto split: option.splits)
  from Cons.IH [OF l] have len: "length sts' = length cs"
    and ih: "\<forall>i < length cs. \<exists>shapes.
      plugin_draw h (fst (cs ! i)) sd (fst (snd (cs ! i))) (snd (snd (cs ! i))) ((snd r # sts') ! i) =
        Some (shapes, sts' ! i)" by auto
  have "\<exists>shapes. plugin_draw h (fst ((c # cs) ! i)) sd (fst (snd ((c # cs) ! i)))
          (snd (snd ((c # cs) ! i))) ((st # sts) ! i) = Some (shapes, sts ! i)"
    if "i < length (c # cs)" for i
  proof (cases i)
    case 0
    with r sts show ?thesis by (cases r) simp
  next
    case (Suc j)
    with that have "j < length cs" by simp
    with ih Suc sts show ?thesis by simp
  qed
  with len sts show ?case by simp
qed

lemma draw_run_count:
  "draw_run h sd cs st = Some sts \<Longrightarrow>
   length (filter (\<lambda>(a, b). entries b \<noteq> entries a) (zip (st # sts) sts)) \<le> 1 \<and>
   (pass_done st sd \<longrightarrow>
      filter (\<lambda>(a, b). entries b \<noteq> entries a) (zip (st # sts) sts) = [] \<and>
      (\<forall>x \<in> set sts. pass_done x sd))"
proof (induction cs arbitrary: st sts)
  case Nil
  then show ?case by simp
next
  case (Cons c cs)
  then obtain r sts' where r: "plugin_draw h (fst c) sd (fst (snd c)) (snd (snd c)) st = Some r"
    and l: "draw_run h sd cs (snd r) = Some sts'" and sts: "sts = snd r # sts'"
    by (auto split: option.splits)
  from r have r': "plugin_draw h (fst c) sd (fst (snd c)) (snd (snd c)) st = Some (fst r, snd r)"
    by simp
  from draw_step [OF r']
  have keep: "pass_done st sd \<Longrightarrow> pass_done (snd r) sd \<and> entries (snd r) = entries st"
    and chg: "entries (snd r) \<noteq> entries st \<Longrightarrow> \<not> pass_done st sd \<and> pass_done (snd r) sd"
    by blast+
  from Cons.IH [OF l]
  have ih1: "length (filter (\<lambda>(a, b). entries b \<noteq> entries a) (zip (snd r # sts') sts')) \<le> 1"
    and ih2: "pass_done (snd r) sd \<Longrightarrow>
      filter (\<lambda>(a, b). entries b \<noteq> entries a) (zip (snd r # sts') sts') = [] \<and>
      (\<forall>x \<in> set sts'. pass_done x sd)"
    by blast+
  have z: "zip (st # sts) sts = (st, snd r) # zip (snd r # sts') sts'"
    using sts by simp
  show ?case
  proof (cases "entries (snd r) = entries st")
    case True
    then have f: "filter (\<lambda>(a, b). entries b \<noteq> entries a) (zip (st # sts) sts) =
                  filter (\<lambda>(a, b). entries b \<noteq> entries a) (zip (snd r # sts') sts')"
      unfolding z by simp
    have "filter (\<lambda>(a, b). entries b \<noteq> entries a) (zip (snd r # sts') sts') = [] \<and>
          (\<forall>x \<in> set sts. pass_done x sd)" if pd: "pass_done st sd"
    proof -
      from keep [OF pd] have p1: "pass_done (snd r) sd" by blast
      from ih2 [OF p1] p1 show ?thesis unfolding sts by auto
    qed
    with ih1 show ?thesis unfolding f by blast
  next
    case False
    from chg [OF False] have p: "pass_done (snd r) sd" and np: "\<not> pass_done st sd" by simp_all
    from ih2 [OF p]
    have "filter (\<lambda>(a, b). entries b \<noteq> entries a) (zip (snd r # sts') sts') = []" by simp
    with False have "filter (\<lambda>(a, b). entries b \<noteq> entries a) (zip (st # sts) sts) = [(st, snd r)]"
      unfolding z by simp
    then have "length (filter (\<lambda>(a, b). entries b \<noteq> entries a) (zip (st # sts) sts)) \<le> 1"
      by simp
    with np show ?thesis by blast
  qed
qed


lemma pass_done_persists:
  assumes run: "draw_run h sd cs st = Some sts"
    and i: "i < length cs" and pd: "pass_done ((st # sts) ! i) sd"
  shows "i \<le> j \<Longrightarrow> j < length cs \<Longrightarrow>
         pass_done (sts ! j) sd \<and> entries (sts ! j) = entries ((st # sts) ! j)"
proof (induction j)
  case 0
  with i pd draw_run_steps [OF run] show ?case
    by (metis draw_step le_zero_eq)
next
  case (Suc j)
  from draw_run_steps [OF run] Suc.prems(2) obtain shapes where
    step: "plugin_draw h (fst (cs ! Suc j)) sd (fst (snd (cs ! Suc j))) (snd (snd (cs ! Suc j)))
             ((st # sts) ! Suc j) = Some (shapes, sts ! Suc j)"
    by blast
  have "pass_done ((st # sts) ! Suc j) sd"
  proof (cases "i = Suc j")
    case True
    with pd show ?thesis by simp
  next
    case False
    with Suc.prems have "i \<le> j" "j < length cs" by simp_all
    from Suc.IH [OF this] show ?thesis by simp
  qed
  with draw_step [OF step] show ?case by blast
qed

lemma draw_state5:
  "map_option snd (plugin_draw example_host example_graph 0 7 2 state5) = Some done5"
  "map_option snd (plugin_draw example_host example_graph 0 7 2 done5) = Some done5"
proof -
  have h: "plugin_sched_get_pid example_host = field_pid"
    "KS_PLUGIN_UNTOUCHED_MASK example_host = 0x80" "KSHARK_TASK_DRAW example_host = 2"
    by (simp_all add: example_host_def)
  show "map_option snd (plugin_draw example_host example_graph 0 7 2 state5) = Some done5"
    by (simp add: plugin_draw_def h state5_def stream5_once done5_def once5_eq)
  show "map_option snd (plugin_draw example_host example_graph 0 7 2 done5) = Some done5"
    by (simp add: plugin_draw_def h done5_def second_pass_once_def)
qed

lemma draw_run_state5:
  "draw_run example_host 0 [(example_graph, 7, 2), (example_graph, 7, 2)] state5 =
     Some [done5, done5]"
proof -
  from draw_state5 obtain r1 r2 where
    "plugin_draw example_host example_graph 0 7 2 state5 = Some r1" "snd r1 = done5"
    "plugin_draw example_host example_graph 0 7 2 done5 = Some r2" "snd r2 = done5"
    by auto
  then show ?thesis by simp
qed

text \<open>
  Claim C7. A call whose draw action does not ask for task drawing, or whose task id
  is zero, or whose stream has no plugin context, returns at once: it adds no shape
  and leaves the whole state, the flag and the entries included, as it was.
\<close>

theorem plugin_draw_nothing_to_draw:
  "draw_action AND KSHARK_TASK_DRAW h = 0 \<or> task = 0 \<or> contexts st sd = None \<Longrightarrow>
   plugin_draw h argv_c sd task draw_action st = Some ([], st)"
  by (auto simp: plugin_draw_def)

theorem plugin_draw_nothing_to_draw_witness:
  "plugin_draw example_host example_graph 0 7 1 state5 = Some ([], state5) \<and>
   plugin_draw example_host example_graph 0 0 2 state5 = Some ([], state5) \<and>
   plugin_draw example_host example_graph 1 7 2 state5 = Some ([], state5)"
proof -
  have "(1 :: 32 word) AND KSHARK_TASK_DRAW example_host = 0 \<or> (7::int) = 0 \<or> contexts state5 0 = None"
    by (simp add: example_host_def)
  from plugin_draw_nothing_to_draw [OF this]
  have a: "plugin_draw example_host example_graph 0 7 1 state5 = Some ([], state5)" .
  have "(2 :: 32 word) AND KSHARK_TASK_DRAW example_host = 0 \<or> (0::int) = 0 \<or> contexts state5 0 = None"
    by simp
  from plugin_draw_nothing_to_draw [OF this]
  have b: "plugin_draw example_host example_graph 0 0 2 state5 = Some ([], state5)" .
  have "(2 :: 32 word) AND KSHARK_TASK_DRAW example_host = 0 \<or> (7::int) = 0 \<or> contexts state5 1 = None"
    by (simp add: state5_def)
  from plugin_draw_nothing_to_draw [OF this]
  have c: "plugin_draw example_host example_graph 1 7 2 state5 = Some ([], state5)" .
  from a b c show ?thesis by simp
qed

text \<open>
  Claim C6. In a run of draw calls for one stream, from any state, at most one call
  changes the entries. A call that reaches the second-pass block (task drawing asked
  for, task id not zero, context present) leaves the flag of the stream set; once the
  flag is set, every later call of the run leaves it set and the entries unchanged.
\<close>

theorem correction_at_most_once:
  assumes "draw_run h sd cs st = Some sts"
  shows "length sts = length cs \<and>
         length (filter (\<lambda>(a, b). entries b \<noteq> entries a) (zip (st # sts) sts)) \<le> 1 \<and>
         (\<forall>i < length cs.
            (snd (snd (cs ! i)) AND KSHARK_TASK_DRAW h \<noteq> 0 \<and> fst (snd (cs ! i)) \<noteq> 0 \<and>
             contexts ((st # sts) ! i) sd \<noteq> None \<longrightarrow> pass_done (sts ! i) sd) \<and>
            (pass_done ((st # sts) ! i) sd \<longrightarrow>
               (\<forall>j. i \<le> j \<and> j < length cs \<longrightarrow>
                  pass_done (sts ! j) sd \<and> entries (sts ! j) = entries ((st # sts) ! j))))"
proof -
  from draw_run_steps [OF assms] have len: "length sts = length cs" by blast
  from draw_run_count [OF assms]
  have cnt: "length (filter (\<lambda>(a, b). entries b \<noteq> entries a) (zip (st # sts) sts)) \<le> 1"
    by blast
  have "(snd (snd (cs ! i)) AND KSHARK_TASK_DRAW h \<noteq> 0 \<and> fst (snd (cs ! i)) \<noteq> 0 \<and>
          contexts ((st # sts) ! i) sd \<noteq> None \<longrightarrow> pass_done (sts ! i) sd) \<and>
        (pass_done ((st # sts) ! i) sd \<longrightarrow>
           (\<forall>j. i \<le> j \<and> j < length cs \<longrightarrow>
              pass_done (sts ! j) sd \<and> entries (sts ! j) = entries ((st # sts) ! j)))"
    if i: "i < length cs" for i
  proof -
    from draw_run_steps [OF assms] i obtain shapes where
      step: "plugin_draw h (fst (cs ! i)) sd (fst (snd (cs ! i))) (snd (snd (cs ! i)))
               ((st # sts) ! i) = Some (shapes, sts ! i)"
      by blast
    from draw_step [OF step]
    have a: "snd (snd (cs ! i)) AND KSHARK_TASK_DRAW h \<noteq> 0 \<and> fst (snd (cs ! i)) \<noteq> 0 \<and>
          contexts ((st # sts) ! i) sd \<noteq> None \<longrightarrow> pass_done (sts ! i) sd"
      by blast
    from pass_done_persists [OF assms i] a show ?thesis by blast
  qed
  with len cnt show ?thesis by blast
qed

theorem correction_at_most_once_witness:
  "draw_run example_host 0 [(example_graph, 7, 2), (example_graph, 7, 2)] state5 =
     Some [done5, done5] \<and>
   pid (entries state5 5) = 7 \<and> pid (entries done5 5) = 9 \<and>
   length (filter (\<lambda>(a, b). entries b \<noteq> entries a) (zip (state5 # [done5, done5]) [done5, done5])) \<le> 1 \<and>
   pass_done done5 0"
proof -
  from correction_at_most_once [OF draw_run_state5]
  have "length (filter (\<lambda>(a, b). entries b \<noteq> entries a)
          (zip (state5 # [done5, done5]) [done5, done5])) \<le> 1"
    by blast
  moreover have "pid (entries state5 5) = 7" "pid (entries done5 5) = 9" "pass_done done5 0"
    by (simp_all add: state5_def done5_def pass_done_def once5_at stream5_at trace_entry_def)
  ultimately show ?thesis using draw_run_state5 by blast
qed

end
